theory Spec2Isabelle
  imports Main "HOL-Library.Word"
begin

section \<open>JavaScript strings and the string built-ins used by server.js\<close>

text \<open>
  A JavaScript string is a sequence of 16-bit code units; \<open>length\<close>, \<open>split\<close>,
  \<open>replace\<close> without the \<open>u\<close> flag and \<open>trim\<close> all work on code units.
  \<open>js\<close> writes an ASCII literal as such a sequence.
\<close>

type_synonym code_unit = "16 word"
type_synonym jsstring = "code_unit list"

definition js :: "string \<Rightarrow> jsstring" where
  "js s = map (\<lambda>c. of_nat (of_char c)) s"

definition SPACE :: code_unit where
  "SPACE = 0x20"

text \<open>
  The regular expression class \<open>\s\<close>, which is also the set \<open>trim\<close> strips: the
  ECMAScript WhiteSpace and LineTerminator code points.
\<close>

definition is_ws :: "code_unit \<Rightarrow> bool" where
  "is_ws c \<longleftrightarrow>
     (0x09 \<le> c \<and> c \<le> 0x0D) \<or> c = 0x20 \<or> c = 0xA0 \<or> c = 0x1680 \<or>
     (0x2000 \<le> c \<and> c \<le> 0x200A) \<or> c = 0x2028 \<or> c = 0x2029 \<or> c = 0x202F \<or>
     c = 0x205F \<or> c = 0x3000 \<or> c = 0xFEFF"

text \<open>
  \<open>s.split(/\s+/)\<close>: the pieces between the maximal whitespace runs. A run at the
  start or at the end leaves an empty piece there, and the empty string gives one
  empty piece.
\<close>

function split_ws :: "jsstring \<Rightarrow> jsstring list" where
  "split_ws [] = [[]]"
| "split_ws (c # cs) =
     (if is_ws c then [] # split_ws (dropWhile is_ws cs)
      else (case split_ws cs of w # ws \<Rightarrow> (c # w) # ws | [] \<Rightarrow> [[c]]))"
  by pat_completeness auto
termination
  by (relation "measure length") (auto simp: less_Suc_eq_le length_dropWhile_le)

text \<open>\<open>s.replace(/\s+/g, " ")\<close>: every maximal whitespace run becomes one space.\<close>

function collapse_ws :: "jsstring \<Rightarrow> jsstring" where
  "collapse_ws [] = []"
| "collapse_ws (c # cs) =
     (if is_ws c then SPACE # collapse_ws (dropWhile is_ws cs)
      else c # collapse_ws cs)"
  by pat_completeness auto
termination
  by (relation "measure length") (auto simp: less_Suc_eq_le length_dropWhile_le)

definition trim :: "jsstring \<Rightarrow> jsstring" where
  "trim s = rev (dropWhile is_ws (rev (dropWhile is_ws s)))"

text \<open>\<open>xs.join(sep)\<close> on an array of strings.\<close>

fun join :: "jsstring \<Rightarrow> jsstring list \<Rightarrow> jsstring" where
  "join sep [] = []"
| "join sep [w] = w"
| "join sep (w # v # ws) = w @ sep @ join sep (v # ws)"

text \<open>
  \<open>xs.slice(start, end)\<close> with integer arguments: a negative argument counts from
  the end, and both are clamped to the array.
\<close>

definition js_slice :: "'a list \<Rightarrow> int \<Rightarrow> int \<Rightarrow> 'a list" where
  "js_slice xs start stop =
     (let len = int (length xs);
          k = (if start < 0 then max (len + start) 0 else min start len);
          final = (if stop < 0 then max (len + stop) 0 else min stop len)
      in take (nat (final - k)) (drop (nat k) xs))"

text \<open>
  \<open>s.toLowerCase()\<close>, the Unicode default lower-case mapping. It is written out for
  every code unit whose image lies in U+0000..U+017F (Basic Latin, Latin-1 Supplement,
  Latin Extended-A, and the three letters above that range which map into it). Every
  other code unit is left in place: Unicode maps each of them to the same number of
  code units, all above U+017F, and nothing in server.js tells those apart.
\<close>

definition lower_unit :: "code_unit \<Rightarrow> jsstring" where
  "lower_unit c =
     (if (0x41 \<le> c \<and> c \<le> 0x5A) \<or> (0xC0 \<le> c \<and> c \<le> 0xDE \<and> c \<noteq> 0xD7) then [c + 0x20]
      else if c = 0x130 then [0x69, 0x307]
      else if c = 0x178 then [0xFF]
      else if ((0x100 \<le> c \<and> c \<le> 0x137) \<or> (0x14A \<le> c \<and> c \<le> 0x177)) \<and> even (unat c) then [c + 1]
      else if ((0x139 \<le> c \<and> c \<le> 0x148) \<or> (0x179 \<le> c \<and> c \<le> 0x17E)) \<and> odd (unat c) then [c + 1]
      else if c = 0x1E9E then [0xDF]
      else if c = 0x212A then [0x6B]
      else if c = 0x212B then [0xE5]
      else [c])"

definition toLowerCase :: "jsstring \<Rightarrow> jsstring" where
  "toLowerCase s = concat (map lower_unit s)"

text \<open>
  \<open>[...s]\<close> iterates a string by code point: a high surrogate followed by a low
  surrogate is one element of two code units, anything else one element of one.
\<close>

definition is_high_surrogate :: "code_unit \<Rightarrow> bool" where
  "is_high_surrogate c \<longleftrightarrow> 0xD800 \<le> c \<and> c \<le> 0xDBFF"

definition is_low_surrogate :: "code_unit \<Rightarrow> bool" where
  "is_low_surrogate c \<longleftrightarrow> 0xDC00 \<le> c \<and> c \<le> 0xDFFF"

fun code_points :: "jsstring \<Rightarrow> jsstring list" where
  "code_points [] = []"
| "code_points [c] = [[c]]"
| "code_points (c # d # cs) =
     (if is_high_surrogate c \<and> is_low_surrogate d then [c, d] # code_points cs
      else [c] # code_points (d # cs))"

text \<open>\<open>s.includes(p)\<close>: \<open>p\<close> occurs in \<open>s\<close> as a contiguous run of code units.\<close>

fun starts_with :: "jsstring \<Rightarrow> jsstring \<Rightarrow> bool" where
  "starts_with s [] = True"
| "starts_with [] (p # ps) = False"
| "starts_with (c # cs) (p # ps) = (c = p \<and> starts_with cs ps)"

fun str_includes :: "jsstring \<Rightarrow> jsstring \<Rightarrow> bool" where
  "str_includes [] p = (p = [])"
| "str_includes (c # cs) p = (starts_with (c # cs) p \<or> str_includes cs p)"

text \<open>The template literal \<open>`${n}`\<close> for a non-negative integer: its decimal digits.\<close>

fun decimal :: "nat \<Rightarrow> jsstring" where
  "decimal n =
     (if n < 10 then [0x30 + of_nat n]
      else decimal (n div 10) @ [0x30 + of_nat (n mod 10)])"

text \<open>
  \<open>xs.sort(cmp)\<close> is stable (ECMAScript 2019): an element moves in front of another
  only when the comparator says so. For a consistent comparator every stable sort
  gives the same array; it is written here as insertion from the right.
\<close>

fun insort_by :: "('a \<Rightarrow> 'a \<Rightarrow> int) \<Rightarrow> 'a \<Rightarrow> 'a list \<Rightarrow> 'a list" where
  "insort_by cmp x [] = [x]"
| "insort_by cmp x (y # ys) =
     (if cmp x y \<le> 0 then x # y # ys else y # insort_by cmp x ys)"

definition js_sort :: "('a \<Rightarrow> 'a \<Rightarrow> int) \<Rightarrow> 'a list \<Rightarrow> 'a list" where
  "js_sort cmp xs = foldr (insort_by cmp) xs []"


section \<open>Data model\<close>

text \<open>
  \<open>CHUNKS\<close> holds objects \<open>{ text, source }\<close>; the retriever's \<open>scored\<close> array holds
  copies with a \<open>score\<close> property added. The properties \<open>text\<close> and
  \<open>source\<close> are the fields \<open>chunk_text\<close> and \<open>chunk_source\<close>. The process
  state is the global \<open>CHUNKS\<close> and what has been written to the console.
\<close>

record chunk =
  chunk_text :: jsstring
  chunk_source :: jsstring

record scored_chunk = chunk +
  score :: int

datatype js_error = Error jsstring

datatype log_entry =
    Log_reading jsstring
  | Log_added jsstring nat
  | Log_read_error js_error
  | Log_total nat

record server_state =
  CHUNKS :: "chunk list"
  console :: "log_entry list"

text \<open>
  \<open>retrieveRelevantChunks\<close> returns an array of objects that are either elements of
  \<open>CHUNKS\<close> or elements of \<open>scored\<close>. Reading \<open>r.score\<close> on the former gives
  \<open>undefined\<close>.
\<close>

datatype retrieved = Chunk chunk | Scored scored_chunk

fun text_of :: "retrieved \<Rightarrow> jsstring" where
  "text_of (Chunk c) = chunk_text c"
| "text_of (Scored c) = chunk_text c"

fun source_of :: "retrieved \<Rightarrow> jsstring" where
  "source_of (Chunk c) = chunk_source c"
| "source_of (Scored c) = chunk_source c"

fun score_of :: "retrieved \<Rightarrow> int option" where
  "score_of (Chunk c) = None"
| "score_of (Scored c) = Some (score c)"


section \<open>Text normaliser and chunker\<close>

definition normalizeText :: "jsstring \<Rightarrow> jsstring" where
  "normalizeText t = trim (collapse_ws t)"

text \<open>
  The loop of \<open>chunkText\<close>, \<open>for (let i = 0; i < words.length; i += wordsPerChunk)\<close>.
  With a step that is not positive it never leaves, so it is a partial function.
\<close>

partial_function (option) chunk_loop ::
  "jsstring list \<Rightarrow> int \<Rightarrow> int \<Rightarrow> jsstring list \<Rightarrow> jsstring list option" where
  "chunk_loop words wordsPerChunk i chunks =
     (if i < int (length words) then
        (let slice = js_slice words i (i + wordsPerChunk)
         in chunk_loop words wordsPerChunk (i + wordsPerChunk)
              (if length slice > 20 then chunks @ [join [SPACE] slice] else chunks))
      else Some chunks)"

declare chunk_loop.simps [code]

definition chunkText :: "jsstring \<Rightarrow> int \<Rightarrow> jsstring list option" where
  "chunkText t wordsPerChunk = chunk_loop (split_ws t) wordsPerChunk 0 []"

definition default_wordsPerChunk :: int where
  "default_wordsPerChunk = 350"


section \<open>Tokeniser, scorer and retriever\<close>

text \<open>The class \<open>[a-zA-Z0-9\<dots>\s]\<close> whose complement \<open>tokenize\<close> replaces by a space.\<close>

definition accented_letters :: "code_unit list" where
  "accented_letters =
     [0x131, 0x11F, 0xFC, 0x15F, 0xF6, 0xE7, 0x130, 0x11E, 0xDC, 0x15E, 0xD6, 0xC7]"

definition token_char :: "code_unit \<Rightarrow> bool" where
  "token_char c \<longleftrightarrow>
     (0x61 \<le> c \<and> c \<le> 0x7A) \<or> (0x41 \<le> c \<and> c \<le> 0x5A) \<or> (0x30 \<le> c \<and> c \<le> 0x39) \<or>
     c \<in> set accented_letters \<or> is_ws c"

definition tokenize :: "jsstring \<Rightarrow> jsstring list" where
  "tokenize str =
     filter (\<lambda>w. length w > 2)
       (split_ws (map (\<lambda>c. if token_char c then c else SPACE) (toLowerCase str)))"

definition scoreChunk :: "jsstring list \<Rightarrow> jsstring list \<Rightarrow> int" where
  "scoreChunk questionTokens chunkTokens =
     (let setQ = set questionTokens
      in fold (\<lambda>t score. if t \<in> setQ then score + 1 else score) chunkTokens 0)"

definition scored_chunks :: "jsstring \<Rightarrow> chunk list \<Rightarrow> scored_chunk list" where
  "scored_chunks question chunks =
     (let qTokens = tokenize question
      in map (\<lambda>ch. \<lparr>chunk_text = chunk_text ch, chunk_source = chunk_source ch,
                    score = scoreChunk qTokens (tokenize (chunk_text ch))\<rparr>) chunks)"

definition sorted_chunks :: "jsstring \<Rightarrow> chunk list \<Rightarrow> scored_chunk list" where
  "sorted_chunks question chunks =
     js_sort (\<lambda>a b. score b - score a) (scored_chunks question chunks)"

text \<open>\<open>scored[0]?.score\<close>: \<open>undefined\<close> on an empty array.\<close>

definition top_score :: "scored_chunk list \<Rightarrow> int option" where
  "top_score scored = (case scored of [] \<Rightarrow> None | s # _ \<Rightarrow> Some (score s))"

text \<open>The function reads \<open>CHUNKS\<close> and assigns nothing; it sorts its own array.\<close>

definition retrieveRelevantChunks ::
  "jsstring \<Rightarrow> int \<Rightarrow> server_state \<Rightarrow> retrieved list \<times> server_state" where
  "retrieveRelevantChunks question topK st =
     (let scored = sorted_chunks question (CHUNKS st)
      in if top_score scored = Some 0 then (map Chunk (js_slice (CHUNKS st) 0 topK), st)
         else (map Scored (js_slice scored 0 topK), st))"

definition default_topK :: int where
  "default_topK = 4"


section \<open>Language detector\<close>

definition trChars :: jsstring where
  "trChars = [0xE7, 0x11F, 0x131, 0xF6, 0x15F, 0xFC, 0xC7, 0x11E, 0x130, 0xD6, 0x15E, 0xDC]"

definition detectLanguage :: "jsstring \<Rightarrow> jsstring" where
  "detectLanguage t =
     (let hasTr = list_ex (\<lambda>c. str_includes trChars c) (code_points t)
      in if hasTr then js ''tr'' else js ''en'')"


section \<open>Index builder\<close>

text \<open>
  What \<open>buildIndex\<close> takes from its collaborators: the directory of the script, its
  listing, \<open>path.extname\<close> and \<open>path.join\<close>, the two reads of \<open>fs.readFileSync\<close>
  and mammoth's text extraction. Each call that can throw returns the thrown value on
  the left.
\<close>

record io_env =
  dirname :: jsstring
  readdirSync :: "jsstring \<Rightarrow> js_error + jsstring list"
  extname :: "jsstring \<Rightarrow> jsstring"
  path_join :: "jsstring \<Rightarrow> jsstring \<Rightarrow> jsstring"
  readFileSync_utf8 :: "jsstring \<Rightarrow> js_error + jsstring"
  readFileSync :: "jsstring \<Rightarrow> js_error + 8 word list"
  extractRawText :: "8 word list \<Rightarrow> js_error + jsstring"

definition loadTxtFile :: "io_env \<Rightarrow> jsstring \<Rightarrow> js_error + jsstring" where
  "loadTxtFile env filePath = readFileSync_utf8 env filePath"

definition loadDocxFile :: "io_env \<Rightarrow> jsstring \<Rightarrow> js_error + jsstring" where
  "loadDocxFile env filePath =
     (case readFileSync env filePath of
        Inl err \<Rightarrow> Inl err
      | Inr buffer \<Rightarrow> extractRawText env buffer)"

text \<open>
  One round of \<open>for (const file of files)\<close> on the local \<open>chunks\<close> array and the
  console. \<open>None\<close> stands for a call of \<open>chunkText\<close> that does not return.
\<close>

definition index_file ::
  "io_env \<Rightarrow> jsstring \<Rightarrow> chunk list \<times> log_entry list \<Rightarrow> (chunk list \<times> log_entry list) option" where
  "index_file env file acc =
     (case acc of (chunks, out) \<Rightarrow>
        (let ext = toLowerCase (extname env file);
             fullPath = path_join env (dirname env) file
         in if ext = js ''.txt'' \<or> ext = js ''.docx'' then
              (let out = out @ [Log_reading file]
               in case (if ext = js ''.txt'' then loadTxtFile env fullPath
                        else loadDocxFile env fullPath) of
                    Inl err \<Rightarrow> Some (chunks, out @ [Log_read_error err])
                  | Inr raw \<Rightarrow>
                      (let t = normalizeText raw
                       in if t = [] then Some (chunks, out)
                          else (case chunkText t default_wordsPerChunk of
                                  None \<Rightarrow> None
                                | Some fileChunks \<Rightarrow>
                                    Some (chunks @ map (\<lambda>(idx, c). \<lparr>chunk_text = c,
                                                    chunk_source = file @ js ''#'' @ decimal idx\<rparr>)
                                                  (enumerate 0 fileChunks),
                                          out @ [Log_added file (length fileChunks)]))))
            else Some (chunks, out)))"

fun index_files ::
  "io_env \<Rightarrow> jsstring list \<Rightarrow> chunk list \<times> log_entry list \<Rightarrow> (chunk list \<times> log_entry list) option" where
  "index_files env [] acc = Some acc"
| "index_files env (file # files) acc =
     (case index_file env file acc of
        None \<Rightarrow> None
      | Some acc' \<Rightarrow> index_files env files acc')"

text \<open>
  \<open>readdirSync\<close> is outside the \<open>try\<close>: if it throws, the promise of \<open>buildIndex\<close>
  is rejected and \<open>CHUNKS\<close> keeps its value.
\<close>

definition buildIndex :: "io_env \<Rightarrow> server_state \<Rightarrow> (js_error + server_state) option" where
  "buildIndex env st =
     (case readdirSync env (dirname env) of
        Inl err \<Rightarrow> Some (Inl err)
      | Inr files \<Rightarrow>
          (case index_files env files ([], console st) of
             None \<Rightarrow> None
           | Some (chunks, out) \<Rightarrow>
               Some (Inr \<lparr>CHUNKS = chunks, console = out @ [Log_total (length chunks)]\<rparr>)))"


section \<open>The tokeniser as the specification words it\<close>

text \<open>
  Lower-case; replace every character outside a-z, 0-9, whitespace and the accented
  letters by a space; split on whitespace; drop the tokens of length at most 2.
\<close>

definition spec_token_char :: "code_unit \<Rightarrow> bool" where
  "spec_token_char c \<longleftrightarrow>
     (0x61 \<le> c \<and> c \<le> 0x7A) \<or> (0x30 \<le> c \<and> c \<le> 0x39) \<or> is_ws c \<or>
     c \<in> set accented_letters"

definition tokenize_spec :: "jsstring \<Rightarrow> jsstring list" where
  "tokenize_spec str =
     (let lowered = toLowerCase str;
          cleaned = map (\<lambda>c. if spec_token_char c then c else SPACE) lowered;
          pieces = split_ws cleaned
      in filter (\<lambda>w. \<not> length w \<le> 2) pieces)"


section \<open>The chunker as the specification words it\<close>

text \<open>
  Consecutive, non-overlapping windows of \<open>n\<close> elements, the last one possibly
  shorter.
\<close>

function windows :: "nat \<Rightarrow> 'a list \<Rightarrow> 'a list list" where
  "windows n xs = (if n = 0 \<or> xs = [] then [] else take n xs # windows n (drop n xs))"
  by pat_completeness auto
termination
  by (relation "measure (\<lambda>(n, xs). length xs)") auto

declare windows.simps [simp del]

text \<open>
  The number of pieces of \<open>split(/\s+/)\<close>, which is what \<open>chunkText\<close> takes
  for words. A blank at the start or at the end of the string leaves an empty piece
  there, and it is counted.
\<close>

definition word_count :: "jsstring \<Rightarrow> nat" where
  "word_count s = length (split_ws s)"

text \<open>
  Split into words, cut into windows of \<open>wordsPerChunk\<close> words, discard every
  window of 20 or fewer words, and join each remaining window with single spaces.
\<close>

definition chunks_spec :: "jsstring \<Rightarrow> int \<Rightarrow> jsstring list" where
  "chunks_spec t wordsPerChunk =
     map (join [SPACE])
       (filter (\<lambda>window. \<not> length window \<le> 20)
          (windows (nat wordsPerChunk) (split_ws t)))"


text \<open>
  The words of a string in the plain sense, the non-empty pieces, and their number;
  and the chunker's description read with these words.
\<close>

definition plain_words :: "jsstring \<Rightarrow> jsstring list" where
  "plain_words s = filter (\<lambda>p. p \<noteq> []) (split_ws s)"

definition plain_word_count :: "jsstring \<Rightarrow> nat" where
  "plain_word_count s = length (plain_words s)"

definition plain_chunks_spec :: "jsstring \<Rightarrow> int \<Rightarrow> jsstring list" where
  "plain_chunks_spec t wordsPerChunk =
     map (join [SPACE])
       (filter (\<lambda>window. \<not> length window \<le> 20)
          (windows (nat wordsPerChunk) (plain_words t)))"

text \<open>No two whitespace code units stand next to each other.\<close>

fun no_ws_runs :: "jsstring \<Rightarrow> bool" where
  "no_ws_runs [] = True"
| "no_ws_runs [c] = True"
| "no_ws_runs (c # d # cs) = (\<not> (is_ws c \<and> is_ws d) \<and> no_ws_runs (d # cs))"


section \<open>The index builder as the specification words it\<close>

text \<open>
  A file is supported when its extension, lower-cased, is ".txt" or ".docx"; decoding
  it is reading it as text or extracting the text of the document.
\<close>

definition supported :: "io_env \<Rightarrow> jsstring \<Rightarrow> bool" where
  "supported env file \<longleftrightarrow>
     toLowerCase (extname env file) = js ''.txt'' \<or> toLowerCase (extname env file) = js ''.docx''"

definition decode :: "io_env \<Rightarrow> jsstring \<Rightarrow> js_error + jsstring" where
  "decode env file =
     (if toLowerCase (extname env file) = js ''.txt''
      then loadTxtFile env (path_join env (dirname env) file)
      else loadDocxFile env (path_join env (dirname env) file))"

text \<open>
  The chunk records of one file: none unless it is supported, decodes and normalises
  to a non-empty text; otherwise one record per chunk, the source being the file name,
  "#" and the position of the chunk among the file's chunks, counted from 0.
\<close>

definition file_records :: "io_env \<Rightarrow> jsstring \<Rightarrow> chunk list" where
  "file_records env file =
     (if supported env file then
        (case decode env file of
           Inl err \<Rightarrow> []
         | Inr raw \<Rightarrow>
             (if normalizeText raw = [] then []
              else map (\<lambda>(idx, c). \<lparr>chunk_text = c, chunk_source = file @ js ''#'' @ decimal idx\<rparr>)
                     (enumerate 0 (chunks_spec (normalizeText raw) 350))))
      else [])"

text \<open>What one round of the loop writes to the console.\<close>

definition file_log :: "io_env \<Rightarrow> jsstring \<Rightarrow> log_entry list" where
  "file_log env file =
     (if supported env file then
        Log_reading file #
        (case decode env file of
           Inl err \<Rightarrow> [Log_read_error err]
         | Inr raw \<Rightarrow>
             (if normalizeText raw = [] then []
              else [Log_added file (length (chunks_spec (normalizeText raw) 350))]))
      else [])"


section \<open>Scenario data\<close>

text \<open>The two-chunk index of the retrieval scenario.\<close>

definition scenario3_index :: "chunk list" where
  "scenario3_index =
     [\<lparr>chunk_text = js ''metabolism sleep routine'', chunk_source = js ''a#0''\<rparr>,
      \<lparr>chunk_text = js ''unrelated filler words here'', chunk_source = js ''b#0''\<rparr>]"


text \<open>A text of \<open>n\<close> words separated by single spaces.\<close>

definition sample_text :: "nat \<Rightarrow> jsstring" where
  "sample_text n = join [SPACE] (replicate n (js ''word''))"


text \<open>A text of 20 words with a blank in front of it.\<close>

definition padded_text :: jsstring where
  "padded_text = SPACE # sample_text 20"


text \<open>
  A directory of four entries: a text file of 25 words, a document whose extraction
  fails, a file of another type and a text file of blanks only.
\<close>

definition sample_files :: "jsstring list" where
  "sample_files = [js ''notes.TXT'', js ''broken.docx'', js ''photo.png'', js ''blank.txt'']"

definition sample_env :: io_env where
  "sample_env =
     \<lparr>dirname = js ''/app'',
      readdirSync = (\<lambda>dir. Inr sample_files),
      extname = (\<lambda>file. if file = js ''notes.TXT'' then js ''.TXT''
                          else if file = js ''broken.docx'' then js ''.docx''
                          else if file = js ''photo.png'' then js ''.png''
                          else js ''.txt''),
      path_join = (\<lambda>dir file. dir @ js ''/'' @ file),
      readFileSync_utf8 = (\<lambda>p. if p = js ''/app/notes.TXT'' then Inr (js ''  '' @ sample_text 25 @ js '' '')
                                 else Inr (js ''   '')),
      readFileSync = (\<lambda>p. Inr [0x50, 0x4B]),
      extractRawText = (\<lambda>buffer. Inl (Error (js ''not a docx file'')))\<rparr>"


section \<open>Sorting and scoring\<close>

lemma set_insort_by: "set (insort_by cmp x ys) = insert x (set ys)"
  by (induction ys) auto

lemma length_insort_by: "length (insort_by cmp x ys) = Suc (length ys)"
  by (induction ys) auto

lemma set_js_sort: "set (js_sort cmp xs) = set xs"
  by (induction xs) (auto simp: js_sort_def set_insort_by)

lemma length_js_sort: "length (js_sort cmp xs) = length xs"
  by (induction xs) (auto simp: js_sort_def length_insort_by)

lemma js_sort_Nil_iff: "js_sort cmp xs = [] \<longleftrightarrow> xs = []"
  using length_js_sort [of cmp xs] by (metis length_0_conv)

lemma sorted_insort_by_score:
  "sorted_wrt (\<lambda>a b. score b \<le> score a) ys \<Longrightarrow>
   sorted_wrt (\<lambda>a b. score b \<le> score a) (insort_by (\<lambda>a b. score b - score a) x ys)"
  by (induction ys) (auto simp: set_insort_by)

lemma sorted_js_sort_score:
  "sorted_wrt (\<lambda>a b. score b \<le> score a) (js_sort (\<lambda>a b. score b - score a) xs)"
  by (induction xs) (auto simp: js_sort_def sorted_insort_by_score)

lemma filter_insort_by_score:
  "filter (\<lambda>c. score c = s) (insort_by (\<lambda>a b. score b - score a) x ys) =
   (if score x = s then x # filter (\<lambda>c. score c = s) ys else filter (\<lambda>c. score c = s) ys)"
  by (induction ys) auto

lemma filter_js_sort_score:
  "filter (\<lambda>c. score c = s) (js_sort (\<lambda>a b. score b - score a) xs) = filter (\<lambda>c. score c = s) xs"
  by (induction xs) (auto simp: js_sort_def filter_insort_by_score)

lemma scoreChunk_fold:
  "fold (\<lambda>t score. if t \<in> Q then score + 1 else score) cs n = n + int (length (filter (\<lambda>t. t \<in> Q) cs))"
  by (induction cs arbitrary: n) auto

lemma scoreChunk_count:
  "scoreChunk qs cs = int (length (filter (\<lambda>t. t \<in> set qs) cs))"
  by (simp add: scoreChunk_def scoreChunk_fold)

lemma scoreChunk_nonneg: "0 \<le> scoreChunk qs cs"
  by (simp add: scoreChunk_count)

lemma scoreChunk_zero_iff: "scoreChunk qs cs = 0 \<longleftrightarrow> set qs \<inter> set cs = {}"
  by (auto simp: scoreChunk_count filter_empty_conv)

lemma js_slice_Nil: "js_slice [] a b = []"
  by (simp add: js_slice_def)

lemma js_slice_take: "0 \<le> k \<Longrightarrow> js_slice xs 0 k = take (nat k) xs"
  by (auto simp: js_slice_def Let_def min_def)

lemma top_score_sorted_zero_iff:
  assumes "chunks \<noteq> []"
  shows "top_score (sorted_chunks q chunks) = Some 0 \<longleftrightarrow>
         (\<forall>c\<in>set (scored_chunks q chunks). score c = 0)"
proof -
  let ?xs = "sorted_chunks q chunks"
  have ne: "?xs \<noteq> []"
    using assms by (simp add: sorted_chunks_def js_sort_Nil_iff scored_chunks_def)
  then obtain x rest where xs: "?xs = x # rest" by (cases ?xs) auto
  have srt: "sorted_wrt (\<lambda>a b. score b \<le> score a) ?xs"
    by (simp add: sorted_chunks_def sorted_js_sort_score)
  have seteq: "set ?xs = set (scored_chunks q chunks)"
    by (simp add: sorted_chunks_def set_js_sort)
  have nonneg: "\<forall>c\<in>set (scored_chunks q chunks). 0 \<le> score c"
    by (auto simp: scored_chunks_def scoreChunk_nonneg)
  have le: "\<forall>c\<in>set ?xs. score c \<le> score x"
    using srt xs by auto
  show ?thesis
  proof
    assume "top_score ?xs = Some 0"
    then have "score x = 0" using xs by (simp add: top_score_def)
    with le nonneg seteq show "\<forall>c\<in>set (scored_chunks q chunks). score c = 0"
      by fastforce
  next
    assume all0: "\<forall>c\<in>set (scored_chunks q chunks). score c = 0"
    have "x \<in> set ?xs" using xs by simp
    with all0 seteq have "score x = 0" by blast
    then show "top_score ?xs = Some 0" using xs by (simp add: top_score_def)
  qed
qed


section \<open>The retriever\<close>

lemma retrieve_unfold:
  "retrieveRelevantChunks q k st =
     (if top_score (sorted_chunks q (CHUNKS st)) = Some 0
      then (map Chunk (js_slice (CHUNKS st) 0 k), st)
      else (map Scored (js_slice (sorted_chunks q (CHUNKS st)) 0 k), st))"
  by (simp add: retrieveRelevantChunks_def Let_def)

lemma sorted_chunks_Nil: "sorted_chunks q [] = []"
  by (simp add: sorted_chunks_def scored_chunks_def js_sort_def)

text \<open>
  Claim C7. On an empty index \<open>retrieveRelevantChunks\<close> returns the empty sequence
  for every question and every \<open>topK\<close>, in particular for \<open>topK = 4\<close>. The
  function has no failing branch: \<open>scored[0]?.score\<close> is \<open>undefined\<close>, the
  fallback test is false and \<open>scored.slice(0, topK)\<close> is empty.
\<close>

theorem retrieve_empty_index:
  "retrieveRelevantChunks question topK (st\<lparr>CHUNKS := []\<rparr>) = ([], st\<lparr>CHUNKS := []\<rparr>) \<and>
   fst (retrieveRelevantChunks question default_topK (st\<lparr>CHUNKS := []\<rparr>)) = []"
  by (simp add: retrieve_unfold sorted_chunks_Nil top_score_def js_slice_Nil)

theorem retrieve_empty_index_witness:
  "retrieveRelevantChunks (js ''how to sleep'') 4 \<lparr>CHUNKS = [], console = []\<rparr> =
     ([], \<lparr>CHUNKS = [], console = []\<rparr>)"
  using retrieve_empty_index [of "js ''how to sleep''" 4 "\<lparr>CHUNKS = [], console = []\<rparr>"]
  by simp

text \<open>
  Claim C2. The score of a chunk is the number of positions of its token sequence
  whose token occurs among the question's tokens, repetitions counted; and on the
  two-chunk index of the scenario the question "sleep routine tips" with
  \<open>topK = 1\<close> returns exactly the record of source "a#0" with score 2.
\<close>

theorem score_counts_token_occurrences:
  "scoreChunk (tokenize q) (tokenize (chunk_text ch)) =
     int (length (filter (\<lambda>t. t \<in> set (tokenize q)) (tokenize (chunk_text ch)))) \<and>
   map score (scored_chunks q chunks) =
     map (\<lambda>ch. int (length (filter (\<lambda>t. t \<in> set (tokenize q)) (tokenize (chunk_text ch))))) chunks \<and>
   fst (retrieveRelevantChunks (js ''sleep routine tips'') 1
          \<lparr>CHUNKS = scenario3_index, console = []\<rparr>) =
     [Scored \<lparr>chunk_text = js ''metabolism sleep routine'', chunk_source = js ''a#0'', score = 2\<rparr>]"
proof (intro conjI)
  show "scoreChunk (tokenize q) (tokenize (chunk_text ch)) =
     int (length (filter (\<lambda>t. t \<in> set (tokenize q)) (tokenize (chunk_text ch))))"
    by (rule scoreChunk_count)
  show "map score (scored_chunks q chunks) =
     map (\<lambda>ch. int (length (filter (\<lambda>t. t \<in> set (tokenize q)) (tokenize (chunk_text ch))))) chunks"
    by (simp add: scored_chunks_def scoreChunk_count)
  show "fst (retrieveRelevantChunks (js ''sleep routine tips'') 1
          \<lparr>CHUNKS = scenario3_index, console = []\<rparr>) =
     [Scored \<lparr>chunk_text = js ''metabolism sleep routine'', chunk_source = js ''a#0'', score = 2\<rparr>]"
    by code_simp
qed

text \<open>
  Claim C9. On a non-empty index the test of the fallback rule, that the first chunk
  after the descending sort has score 0, holds exactly when every chunk has score 0,
  that is, exactly when no chunk shares a token with the question.
\<close>

theorem fallback_iff_no_overlap:
  "CHUNKS st \<noteq> [] \<Longrightarrow>
     (top_score (sorted_chunks q (CHUNKS st)) = Some 0 \<longleftrightarrow>
        (\<forall>ch\<in>set (CHUNKS st). scoreChunk (tokenize q) (tokenize (chunk_text ch)) = 0)) \<and>
     (top_score (sorted_chunks q (CHUNKS st)) = Some 0 \<longleftrightarrow>
        (\<forall>ch\<in>set (CHUNKS st). set (tokenize q) \<inter> set (tokenize (chunk_text ch)) = {}))"
  by (simp add: top_score_sorted_zero_iff scored_chunks_def scoreChunk_zero_iff)

theorem fallback_iff_no_overlap_witness:
  "CHUNKS \<lparr>CHUNKS = scenario3_index, console = []\<rparr> \<noteq> [] \<and>
   (top_score (sorted_chunks (js ''sleep'') scenario3_index) = Some 0 \<longleftrightarrow>
      (\<forall>ch\<in>set scenario3_index. scoreChunk (tokenize (js ''sleep'')) (tokenize (chunk_text ch)) = 0))"
  using fallback_iff_no_overlap [of "\<lparr>CHUNKS = scenario3_index, console = []\<rparr>" "js ''sleep''"]
  by (simp add: scenario3_index_def)

text \<open>
  Claim C3. A call of \<open>retrieveRelevantChunks\<close> leaves the index as it was, so a
  second call with the same question and \<open>topK\<close> returns the same sequence. The
  result is a slice of the index itself or of the sorted array; the sorted array is
  in descending order of score, and for every score the chunks of that score appear
  in it in the order they have in the index.
\<close>

theorem retrieve_deterministic_stable:
  "snd (retrieveRelevantChunks q k st) = st \<and>
   retrieveRelevantChunks q k (snd (retrieveRelevantChunks q k st)) = retrieveRelevantChunks q k st \<and>
   fst (retrieveRelevantChunks q k st) =
     (if top_score (sorted_chunks q (CHUNKS st)) = Some 0
      then map Chunk (js_slice (CHUNKS st) 0 k)
      else map Scored (js_slice (sorted_chunks q (CHUNKS st)) 0 k)) \<and>
   sorted_wrt (\<lambda>a b. score b \<le> score a) (sorted_chunks q (CHUNKS st)) \<and>
   (\<forall>s. filter (\<lambda>c. score c = s) (sorted_chunks q (CHUNKS st)) =
        filter (\<lambda>c. score c = s) (scored_chunks q (CHUNKS st))) \<and>
   map (\<lambda>c. \<lparr>chunk_text = chunk_text c, chunk_source = chunk_source c\<rparr>) (scored_chunks q (CHUNKS st)) =
     CHUNKS st"
proof -
  have unchanged: "snd (retrieveRelevantChunks q k st) = st"
    by (simp add: retrieve_unfold)
  have strip: "map (\<lambda>c. \<lparr>chunk_text = chunk_text c, chunk_source = chunk_source c\<rparr>)
                 (scored_chunks q (CHUNKS st)) = CHUNKS st"
    by (simp add: scored_chunks_def o_def map_idI)
  show ?thesis
    using unchanged strip
    by (simp add: retrieve_unfold sorted_chunks_def sorted_js_sort_score filter_js_sort_score)
qed

text \<open>
  Claim C1. When no chunk shares a token with the question the function returns
  \<open>CHUNKS.slice(0, topK)\<close>: the first chunks of the index in their order, but the
  index's own objects, which have no \<open>score\<close> property. On the scenario index
  and the question "quantum physics" both chunks score 0, and the record returned for
  \<open>topK = 1\<close> reads \<open>undefined\<close> where the claim expects the score 0.
\<close>

theorem retrieve_fallback_drops_score:
  "scoreChunk (tokenize (js ''quantum physics'')) (tokenize (js ''metabolism sleep routine'')) = 0 \<and>
   scoreChunk (tokenize (js ''quantum physics'')) (tokenize (js ''unrelated filler words here'')) = 0 \<and>
   fst (retrieveRelevantChunks (js ''quantum physics'') 1 \<lparr>CHUNKS = scenario3_index, console = []\<rparr>) =
     [Chunk \<lparr>chunk_text = js ''metabolism sleep routine'', chunk_source = js ''a#0''\<rparr>] \<and>
   map score_of (fst (retrieveRelevantChunks (js ''quantum physics'') 1
                        \<lparr>CHUNKS = scenario3_index, console = []\<rparr>)) = [None]"
  by code_simp

text \<open>
  The part of the fallback rule that does hold: the records returned are the first
  chunks of the index, in index order.
\<close>

lemma retrieve_fallback_slice:
  assumes "\<forall>ch\<in>set (CHUNKS st). set (tokenize q) \<inter> set (tokenize (chunk_text ch)) = {}"
  shows "fst (retrieveRelevantChunks q k st) = map Chunk (js_slice (CHUNKS st) 0 k)"
proof (cases "CHUNKS st = []")
  case True
  then show ?thesis
    by (simp add: retrieve_unfold sorted_chunks_Nil top_score_def js_slice_Nil)
next
  case False
  with assms have "top_score (sorted_chunks q (CHUNKS st)) = Some 0"
    by (simp add: top_score_sorted_zero_iff scored_chunks_def scoreChunk_zero_iff)
  then show ?thesis by (simp add: retrieve_unfold)
qed


section \<open>The tokeniser\<close>

lemma lower_unit_not_upper:
  assumes "d \<in> set (lower_unit c)"
  shows "\<not> (0x41 \<le> d \<and> d \<le> 0x5A)"
  using assms
  by (auto simp: lower_unit_def word_le_nat_alt unat_word_ariths split: if_splits)

lemma toLowerCase_not_upper:
  "d \<in> set (toLowerCase s) \<Longrightarrow> \<not> (0x41 \<le> d \<and> d \<le> 0x5A)"
  by (auto simp: toLowerCase_def dest: lower_unit_not_upper)

lemma token_char_lowered:
  "d \<in> set (toLowerCase s) \<Longrightarrow> token_char d = spec_token_char d"
  using toLowerCase_not_upper [of d s]
  by (auto simp: token_char_def spec_token_char_def)

text \<open>
  Claim C6. \<open>tokenize\<close> is the composition the specification describes: it
  lower-cases, replaces every code unit outside a-z, 0-9, whitespace and the accented
  letters by a space, splits on whitespace and drops the tokens of length at most 2,
  so every token has length at least 3. (The source's class also lets A-Z through,
  but no upper-case letter is left after lower-casing.) On "Hello, World! 123" it
  gives "hello", "world", "123".
\<close>

theorem tokenize_matches_description:
  "tokenize str = tokenize_spec str \<and>
   (\<forall>w\<in>set (tokenize str). 3 \<le> length w) \<and>
   tokenize (js ''Hello, World! 123'') = [js ''hello'', js ''world'', js ''123'']"
proof (intro conjI)
  have "map (\<lambda>c. if token_char c then c else SPACE) (toLowerCase str) =
        map (\<lambda>c. if spec_token_char c then c else SPACE) (toLowerCase str)"
    by (rule map_cong) (simp_all add: token_char_lowered)
  then show "tokenize str = tokenize_spec str"
    unfolding tokenize_def tokenize_spec_def Let_def not_le by (rule arg_cong)
  show "\<forall>w\<in>set (tokenize str). 3 \<le> length w"
    by (auto simp: tokenize_def)
  show "tokenize (js ''Hello, World! 123'') = [js ''hello'', js ''world'', js ''123'']"
    by code_simp
qed

theorem tokenize_matches_description_witness:
  "list_all (\<lambda>w. 3 \<le> length w) (tokenize (js ''An ox, a cat'')) \<and>
   tokenize (js ''An ox, a cat'') = [js ''cat'']"
proof -
  have "tokenize (js ''An ox, a cat'') = [js ''cat'']"
    by code_simp
  then show ?thesis
    using tokenize_matches_description [of "js ''An ox, a cat''"]
    by (simp add: list_all_iff)
qed


section \<open>The language detector\<close>

lemma str_includes_single: "str_includes s [c] \<longleftrightarrow> c \<in> set s"
  by (induction s) auto

lemma starts_with_hd: "starts_with s (c # p) \<Longrightarrow> c \<in> set s"
  by (cases s) auto

lemma str_includes_hd: "str_includes s (c # p) \<Longrightarrow> c \<in> set s"
  by (induction s) (auto dest: starts_with_hd)

lemma trChars_not_high: "is_high_surrogate c \<Longrightarrow> c \<notin> set trChars"
  by (auto simp: is_high_surrogate_def trChars_def)

lemma trChars_not_low: "is_low_surrogate c \<Longrightarrow> c \<notin> set trChars"
  by (auto simp: is_low_surrogate_def trChars_def)

lemma hasTr_iff:
  "list_ex (\<lambda>c. str_includes trChars c) (code_points t) \<longleftrightarrow> (\<exists>c\<in>set t. c \<in> set trChars)"
proof (induction t rule: code_points.induct)
  case 1
  show ?case by simp
next
  case (2 c)
  show ?case by (simp add: str_includes_single)
next
  case (3 c d cs)
  show ?case
  proof (cases "is_high_surrogate c \<and> is_low_surrogate d")
    case True
    then have "c \<notin> set trChars" "d \<notin> set trChars"
      by (simp_all add: trChars_not_high trChars_not_low)
    moreover from \<open>c \<notin> set trChars\<close> have "\<not> str_includes trChars [c, d]"
      using str_includes_hd by blast
    ultimately show ?thesis using True 3 by simp
  next
    case False
    then show ?thesis using 3 by (auto simp: str_includes_single)
  qed
qed

lemma set_trChars: "set trChars = set accented_letters"
  by (auto simp: trChars_def accented_letters_def)

text \<open>
  Claim C8. \<open>detectLanguage\<close> answers "tr" exactly when some character of the text
  is one of the twelve accented letters (six letters, lower and upper case), the same
  set the tokeniser keeps, and "en" otherwise. A character is a code point here, as
  \<open>[...text]\<close> iterates; the letters are single code units and none is a surrogate,
  so the test comes to the same on code units. "Nas\<dots>l uyuyabilirim" with the
  dotless i (U+0131) is Turkish, "How can I sleep" is English.
\<close>

theorem detectLanguage_iff_accented:
  "(detectLanguage t = js ''tr'' \<longleftrightarrow> (\<exists>c\<in>set t. c \<in> set accented_letters)) \<and>
   detectLanguage t = (if \<exists>c\<in>set t. c \<in> set accented_letters then js ''tr'' else js ''en'') \<and>
   detectLanguage (js ''Nas'' @ [0x131] @ js ''l uyuyabilirim'') = js ''tr'' \<and>
   detectLanguage (js ''How can I sleep'') = js ''en''"
proof -
  have neq: "js ''tr'' \<noteq> js ''en''"
    by (simp add: js_def)
  have eq: "detectLanguage t = (if \<exists>c\<in>set t. c \<in> set accented_letters then js ''tr'' else js ''en'')"
    by (simp add: detectLanguage_def hasTr_iff set_trChars)
  have ex1: "detectLanguage (js ''Nas'' @ [0x131] @ js ''l uyuyabilirim'') = js ''tr''"
    by code_simp
  have ex2: "detectLanguage (js ''How can I sleep'') = js ''en''"
    by code_simp
  from eq neq have "detectLanguage t = js ''tr'' \<longleftrightarrow> (\<exists>c\<in>set t. c \<in> set accented_letters)"
    by (simp split: if_splits)
  with eq ex1 ex2 show ?thesis by blast
qed


section \<open>The chunker\<close>

subsection \<open>The loop\<close>

lemma js_slice_window:
  assumes "0 \<le> i" and "0 < w"
  shows "js_slice xs i (i + w) = take (nat w) (drop (nat i) xs)"
proof (cases "i < int (length xs)")
  case False
  with assms show ?thesis
    by (simp add: js_slice_def Let_def min_def)
next
  case True
  have "nat (min (i + w) (int (length xs)) - i) = min (nat w) (length xs - nat i)"
    using assms True by (simp add: min_def) linarith
  moreover have "take (min (nat w) (length xs - nat i)) (drop (nat i) xs) =
                 take (nat w) (drop (nat i) xs)"
    by (simp add: min_def)
  ultimately show ?thesis
    using assms True by (simp add: js_slice_def Let_def min_def)
qed

lemma chunk_loop_windows:
  assumes "0 < w"
  shows "chunk_loop words w (int k) chunks =
         Some (chunks @ map (join [SPACE])
                 (filter (\<lambda>s. 20 < length s) (windows (nat w) (drop k words))))"
proof (induction "length words - k" arbitrary: k chunks rule: less_induct)
  case less
  show ?case
  proof (cases "k < length words")
    case False
    then show ?thesis
      by (subst chunk_loop.simps) (simp add: windows.simps)
  next
    case True
    let ?slice = "take (nat w) (drop k words)"
    let ?chunks' = "if 20 < length ?slice then chunks @ [join [SPACE] ?slice] else chunks"
    have lt: "length words - (k + nat w) < length words - k"
      using True assms by linarith
    have sl: "js_slice words (int k) (int k + w) = ?slice"
      using assms by (simp add: js_slice_window)
    have idx: "int k + w = int (k + nat w)" using assms by simp
    have unf: "windows (nat w) (drop k words) =
               ?slice # windows (nat w) (drop (k + nat w) words)"
      using True assms by (subst windows.simps) (simp add: add.commute)
    have "chunk_loop words w (int k) chunks = chunk_loop words w (int k + w) ?chunks'"
      using True by (subst chunk_loop.simps) (simp add: sl Let_def)
    also have "\<dots> = chunk_loop words w (int (k + nat w)) ?chunks'"
      by (simp only: idx)
    also have "\<dots> = Some (?chunks' @ map (join [SPACE])
                 (filter (\<lambda>s. 20 < length s) (windows (nat w) (drop (k + nat w) words))))"
      by (rule less [OF lt])
    also have "\<dots> = Some (chunks @ map (join [SPACE])
                 (filter (\<lambda>s. 20 < length s) (windows (nat w) (drop k words))))"
      by (simp add: unf)
    finally show ?thesis .
  qed
qed

lemma chunk_loop_diverges:
  assumes "w \<le> 0" and "i < int (length words)"
  shows "chunk_loop words w i chunks = None"
proof -
  have "\<not> (w \<le> 0 \<and> i < int (length words))" if "chunk_loop words w i chunks = Some y" for y
    by (rule chunk_loop.raw_induct
          [where P = "\<lambda>words w i chunks y. \<not> (w \<le> 0 \<and> i < int (length words))", OF _ that])
       (fastforce simp: Let_def split: if_splits)
  with assms show ?thesis by (cases "chunk_loop words w i chunks") auto
qed

subsection \<open>Splitting a joined window gives the window back\<close>

lemma is_ws_SPACE: "is_ws SPACE"
  by (simp add: is_ws_def SPACE_def)

lemma split_ws_not_Nil: "split_ws t \<noteq> []"
  by (induction t rule: split_ws.induct) (auto split: list.splits)

lemma split_ws_ws_free: "\<forall>w\<in>set (split_ws t). \<forall>c\<in>set w. \<not> is_ws c"
proof (induction t rule: split_ws.induct)
  case 1
  show ?case by simp
next
  case (2 c cs)
  show ?case
  proof (cases "is_ws c")
    case True
    with 2 show ?thesis by simp
  next
    case False
    obtain w ws where sp: "split_ws cs = w # ws"
      by (cases "split_ws cs") (auto simp: split_ws_not_Nil)
    with False 2(2) show ?thesis by auto
  qed
qed

lemma split_ws_inner_nonempty: "x \<in> set (butlast (tl (split_ws t))) \<Longrightarrow> x \<noteq> []"
proof (induction t arbitrary: x rule: split_ws.induct)
  case 1
  then show ?case by simp
next
  case (2 c cs)
  show ?case
  proof (cases "is_ws c")
    case False
    with 2 show ?thesis
      by (cases "split_ws cs") (auto simp: split_ws_not_Nil)
  next
    case True
    let ?d = "dropWhile is_ws cs"
    from True 2 have x: "x \<in> set (butlast (split_ws ?d))" by simp
    show ?thesis
    proof (cases ?d)
      case Nil
      with x show ?thesis by simp
    next
      case (Cons e es)
      then have "\<not> is_ws e"
        by (metis hd_dropWhile list.sel(1) list.simps(3))
      then obtain w ws where sp: "split_ws es = w # ws" and d: "split_ws ?d = (e # w) # ws"
        using Cons by (cases "split_ws es") (auto simp: split_ws_not_Nil)
      from x d have "x = e # w \<or> x \<in> set (butlast ws)"
        by (auto split: if_splits)
      moreover have "butlast ws = butlast (tl (split_ws ?d))" using d by simp
      ultimately show ?thesis using 2(1) [OF True] by auto
    qed
  qed
qed

lemma split_ws_free_word: "\<forall>c\<in>set w. \<not> is_ws c \<Longrightarrow> split_ws w = [w]"
  by (induction w) auto

lemma split_ws_append_sep:
  "\<forall>c\<in>set w. \<not> is_ws c \<Longrightarrow> is_ws s \<Longrightarrow>
   split_ws (w @ s # r) = w # split_ws (dropWhile is_ws r)"
  by (induction w) auto

lemma join_Cons: "ws \<noteq> [] \<Longrightarrow> join sep (w # ws) = w @ sep @ join sep ws"
  by (cases ws) auto

lemma split_join:
  assumes "ws \<noteq> []"
    and "\<forall>w\<in>set ws. \<forall>c\<in>set w. \<not> is_ws c"
    and "\<forall>x\<in>set (butlast (tl ws)). x \<noteq> []"
  shows "split_ws (join [SPACE] ws) = ws"
  using assms
proof (induction ws)
  case Nil
  then show ?case by simp
next
  case (Cons w ws)
  show ?case
  proof (cases ws)
    case Nil
    with Cons.prems show ?thesis by (simp add: split_ws_free_word)
  next
    case (Cons v vs)
    let ?r = "join [SPACE] ws"
    have free_w: "\<forall>c\<in>set w. \<not> is_ws c" using Cons.prems by simp
    have ih: "split_ws ?r = ws"
      using Cons.IH Cons.prems Cons by (auto split: if_splits)
    have "dropWhile is_ws ?r = ?r"
    proof (cases v)
      case (Cons e es)
      then have "\<not> is_ws e" using \<open>ws = v # vs\<close> Cons.prems by simp
      then show ?thesis using Cons \<open>ws = v # vs\<close> by (cases vs) auto
    next
      case Nil
      then have "vs = []" using \<open>ws = v # vs\<close> Cons.prems by (auto split: if_splits)
      with Nil \<open>ws = v # vs\<close> show ?thesis by simp
    qed
    then show ?thesis
      using free_w ih Cons by (simp add: split_ws_append_sep is_ws_SPACE)
  qed
qed

subsection \<open>Normalised text\<close>

lemma collapse_ws_hd:
  "s \<noteq> [] \<Longrightarrow> \<not> is_ws (hd s) \<Longrightarrow> collapse_ws s \<noteq> [] \<and> hd (collapse_ws s) = hd s"
  by (cases s) auto

lemma dropWhile_ws_hd: "dropWhile is_ws s \<noteq> [] \<Longrightarrow> \<not> is_ws (hd (dropWhile is_ws s))"
  using hd_dropWhile by blast

lemma no_ws_runs_Cons:
  "no_ws_runs (c # s) \<longleftrightarrow> (s = [] \<or> (\<not> (is_ws c \<and> is_ws (hd s)) \<and> no_ws_runs s))"
  by (cases s) auto

lemma no_ws_runs_collapse: "no_ws_runs (collapse_ws s)"
proof (induction s rule: collapse_ws.induct)
  case 1
  show ?case by simp
next
  case (2 c cs)
  show ?case
  proof (cases "is_ws c")
    case False
    with 2 show ?thesis
      by (cases cs) (auto simp: no_ws_runs_Cons is_ws_SPACE)
  next
    case True
    let ?d = "dropWhile is_ws cs"
    have "collapse_ws ?d = [] \<or> \<not> is_ws (hd (collapse_ws ?d))"
    proof (cases "?d = []")
      case True
      then have "collapse_ws ?d = []" by (simp only: collapse_ws.simps)
      then show ?thesis by blast
    next
      case False
      then have "\<not> is_ws (hd ?d)" by (rule dropWhile_ws_hd)
      with False show ?thesis using collapse_ws_hd by auto
    qed
    with True 2 show ?thesis by (auto simp: no_ws_runs_Cons)
  qed
qed

lemma no_ws_runs_drop: "no_ws_runs s \<Longrightarrow> no_ws_runs (drop n s)"
proof (induction n arbitrary: s)
  case 0
  then show ?case by simp
next
  case (Suc n)
  then show ?case by (cases s) (auto simp: no_ws_runs_Cons)
qed

lemma no_ws_runs_take: "no_ws_runs s \<Longrightarrow> no_ws_runs (take n s)"
proof (induction s arbitrary: n)
  case Nil
  then show ?case by simp
next
  case (Cons c s)
  show ?case
  proof (cases n)
    case 0
    then show ?thesis by simp
  next
    case (Suc m)
    show ?thesis
    proof (cases "take m s = []")
      case True
      then show ?thesis using Suc by (simp only: take_Suc_Cons no_ws_runs.simps)
    next
      case False
      then have "hd (take m s) = hd s" "s \<noteq> []" by (cases s; cases m; auto)+
      with Cons Suc False show ?thesis by (auto simp: no_ws_runs_Cons)
    qed
  qed
qed

lemma trim_as_take_drop:
  "\<exists>m k. trim s = take m (drop k s)"
proof -
  let ?d = "dropWhile is_ws s"
  obtain m where "rev (dropWhile is_ws (rev ?d)) = take m ?d"
    by (metis dropWhile_eq_drop rev_drop rev_rev_ident)
  moreover have "?d = drop (length (takeWhile is_ws s)) s"
    by (rule dropWhile_eq_drop)
  ultimately show ?thesis unfolding trim_def by metis
qed

lemma trim_ends:
  assumes "trim s \<noteq> []"
  shows "\<not> is_ws (hd (trim s)) \<and> \<not> is_ws (last (trim s))"
proof -
  let ?d = "dropWhile is_ws s"
  let ?e = "dropWhile is_ws (rev ?d)"
  have e: "?e \<noteq> []" using assms by (simp add: trim_def)
  then have "\<not> is_ws (hd ?e)" by (rule dropWhile_ws_hd)
  then have last: "\<not> is_ws (last (trim s))"
    using e by (simp add: trim_def last_rev)
  have d: "?d \<noteq> []" using e by (metis dropWhile.simps(1) rev.simps(1))
  then have hd_d: "\<not> is_ws (hd ?d)" by (rule dropWhile_ws_hd)
  obtain m where m: "trim s = take m ?d"
    unfolding trim_def by (metis dropWhile_eq_drop rev_drop rev_rev_ident)
  with assms have "hd (trim s) = hd ?d" by (cases m; cases ?d; auto)
  with hd_d last show ?thesis by simp
qed

lemma no_ws_runs_normalizeText: "no_ws_runs (normalizeText raw)"
proof -
  obtain m k where "trim (collapse_ws raw) = take m (drop k (collapse_ws raw))"
    using trim_as_take_drop by blast
  then show ?thesis
    by (simp add: normalizeText_def no_ws_runs_take no_ws_runs_drop no_ws_runs_collapse)
qed

lemma split_ws_no_empty_piece:
  assumes "no_ws_runs t" and "t \<noteq> []" and "\<not> is_ws (hd t)" and "\<not> is_ws (last t)"
  shows "[] \<notin> set (split_ws t)"
  using assms
proof (induction "length t" arbitrary: t rule: less_induct)
  case less
  from less.prems obtain c cs where t: "t = c # cs" and c: "\<not> is_ws c"
    by (cases t) auto
  show ?case
  proof (cases cs)
    case Nil
    with t c show ?thesis by simp
  next
    case (Cons d ds)
    show ?thesis
    proof (cases "is_ws d")
      case False
      have "[] \<notin> set (split_ws cs)"
        using less.hyps [of cs] less.prems t Cons False by (auto simp: no_ws_runs_Cons)
      then show ?thesis using t c by (cases "split_ws cs") auto
    next
      case True
      have ds_ne: "ds \<noteq> []" using less.prems(4) t Cons True by auto
      have hd_ds: "\<not> is_ws (hd ds)"
        using less.prems(1) t Cons True ds_ne by (auto simp: no_ws_runs_Cons)
      then have dw: "dropWhile is_ws ds = ds" using ds_ne by (cases ds) auto
      have runs: "no_ws_runs ds"
        using less.prems(1) t Cons ds_ne by (auto simp: no_ws_runs_Cons)
      have "last ds = last t" using t Cons ds_ne by simp
      then have "[] \<notin> set (split_ws ds)"
        using less.hyps [of ds] runs ds_ne hd_ds less.prems(4) t Cons by simp
      then show ?thesis using t c Cons True dw by simp
    qed
  qed
qed

text \<open>
  On a normalised text, which is what \<open>buildIndex\<close> hands to \<open>chunkText\<close>,
  every piece of the split is a word in the plain sense: not empty and free of
  whitespace. So \<open>word_count\<close> is the number of words there.
\<close>

lemma normalized_pieces_are_words:
  assumes "normalizeText raw \<noteq> []"
  shows "\<forall>w\<in>set (split_ws (normalizeText raw)). w \<noteq> [] \<and> (\<forall>c\<in>set w. \<not> is_ws c)"
proof -
  have "[] \<notin> set (split_ws (normalizeText raw))"
    using assms trim_ends [of "collapse_ws raw"] no_ws_runs_normalizeText [of raw]
    by (intro split_ws_no_empty_piece) (simp_all add: normalizeText_def)
  then show ?thesis using split_ws_ws_free by metis
qed

lemma collapse_ws_word_append:
  "\<forall>c\<in>set w. \<not> is_ws c \<Longrightarrow> collapse_ws (w @ r) = w @ collapse_ws r"
  by (induction w) auto

lemma dropWhile_ws_id: "s = [] \<or> \<not> is_ws (hd s) \<Longrightarrow> dropWhile is_ws s = s"
  by (cases s) auto

lemma hd_join_words:
  assumes "ws \<noteq> []" and "hd ws \<noteq> []"
  shows "join sep ws \<noteq> [] \<and> hd (join sep ws) = hd (hd ws)"
proof (cases ws)
  case Nil
  with assms show ?thesis by simp
next
  case (Cons w vs)
  with assms show ?thesis by (cases vs) auto
qed

lemma last_join_words:
  "ws \<noteq> [] \<Longrightarrow> last ws \<noteq> [] \<Longrightarrow> last (join [SPACE] ws) = last (last ws)"
proof (induction ws)
  case Nil
  then show ?case by simp
next
  case (Cons w ws)
  show ?case
  proof (cases ws)
    case Nil
    then show ?thesis by simp
  next
    case (Cons v vs)
    then have "join [SPACE] ws \<noteq> []"
      using Cons.prems by (cases vs) auto
    with Cons Cons.IH Cons.prems show ?thesis by simp
  qed
qed

lemma collapse_ws_join_words:
  assumes "\<forall>w\<in>set ws. w \<noteq> [] \<and> (\<forall>c\<in>set w. \<not> is_ws c)"
  shows "collapse_ws (join [SPACE] ws) = join [SPACE] ws"
  using assms
proof (induction ws)
  case Nil
  show ?case by simp
next
  case (Cons w ws)
  show ?case
  proof (cases ws)
    case Nil
    with Cons.prems show ?thesis
      using collapse_ws_word_append [of w "[]"] by simp
  next
    case (Cons v vs)
    let ?r = "join [SPACE] ws"
    have "\<not> is_ws (hd ?r)"
      using hd_join_words [of ws "[SPACE]"] Cons Cons.prems by simp
    then have "dropWhile is_ws ?r = ?r" by (simp add: dropWhile_ws_id)
    moreover have "collapse_ws ?r = ?r" using Cons.IH Cons.prems by simp
    ultimately show ?thesis
      using Cons Cons.prems by (simp add: collapse_ws_word_append is_ws_SPACE)
  qed
qed

lemma trim_id:
  assumes "s \<noteq> []" and "\<not> is_ws (hd s)" and "\<not> is_ws (last s)"
  shows "trim s = s"
proof -
  have "dropWhile is_ws s = s" using assms by (simp add: dropWhile_ws_id)
  moreover have "dropWhile is_ws (rev s) = rev s"
    using assms by (intro dropWhile_ws_id) (simp add: hd_rev)
  ultimately show ?thesis by (simp add: trim_def)
qed

text \<open>Conversely, words joined by single spaces form a normalised text.\<close>

lemma normalizeText_join_words:
  assumes "ws \<noteq> []" and "\<forall>w\<in>set ws. w \<noteq> [] \<and> (\<forall>c\<in>set w. \<not> is_ws c)"
  shows "normalizeText (join [SPACE] ws) = join [SPACE] ws"
proof -
  let ?t = "join [SPACE] ws"
  have hd: "?t \<noteq> [] \<and> hd ?t = hd (hd ws)"
    using assms by (intro hd_join_words) (simp_all add: hd_in_set)
  have last: "last ?t = last (last ws)"
    using assms by (intro last_join_words) simp_all
  have "hd ws \<in> set ws" "last ws \<in> set ws"
    using assms(1) by simp_all
  with assms(2) have "\<not> is_ws (hd (hd ws))" "\<not> is_ws (last (last ws))"
    by (metis hd_in_set, metis last_in_set)
  with hd last have "trim ?t = ?t" by (intro trim_id) simp_all
  then show ?thesis by (simp add: normalizeText_def collapse_ws_join_words assms(2))
qed

lemma normalizeText_sample_text: "0 < n \<Longrightarrow> normalizeText (sample_text n) = sample_text n"
  unfolding sample_text_def
  by (intro normalizeText_join_words) (auto simp: js_def is_ws_def)

subsection \<open>Word counts of the chunks\<close>

lemma windows_elem:
  "s \<in> set (windows n xs) \<Longrightarrow> \<exists>k<length xs. s = take n (drop k xs)"
proof (induction n xs rule: windows.induct)
  case (1 n xs)
  show ?case
  proof (cases "n = 0 \<or> xs = []")
    case True
    with 1(2) show ?thesis by (simp add: windows.simps)
  next
    case False
    with 1(2) have "s = take n xs \<or> s \<in> set (windows n (drop n xs))"
      by (subst (asm) windows.simps) auto
    then show ?thesis
    proof
      assume "s = take n xs"
      with False show ?thesis by (intro exI [of _ 0]) simp
    next
      assume "s \<in> set (windows n (drop n xs))"
      with 1(1) False obtain k where "k < length (drop n xs)" "s = take n (drop k (drop n xs))"
        by blast
      then show ?thesis by (intro exI [of _ "k + n"]) (simp add: add.commute)
    qed
  qed
qed

lemma inner_of_slice:
  "set (butlast (tl (take n (drop k xs)))) \<subseteq> set (butlast (tl xs))"
proof -
  let ?ys = "tl xs"
  let ?zs = "drop k ?ys"
  have eq: "butlast (tl (take n (drop k xs))) = butlast (take (n - 1) ?zs)"
    by (simp add: tl_take tl_drop)
  have "set (butlast (take (n - 1) ?zs)) \<subseteq> set (butlast ?zs)"
  proof (cases "n - 1 < length ?zs")
    case True
    then have "take (n - 1) ?zs = take (n - 1) (butlast ?zs)"
      by (simp add: take_butlast)
    then have "set (take (n - 1) ?zs) \<subseteq> set (butlast ?zs)"
      by (metis set_take_subset)
    then show ?thesis
      by (meson in_set_butlastD subset_iff)
  next
    case False
    then show ?thesis by simp
  qed
  also have "\<dots> \<subseteq> set (butlast ?ys)"
    by (simp add: butlast_drop set_drop_subset)
  finally show ?thesis using eq by simp
qed

lemma word_count_slice:
  assumes "k < length (split_ws t)" and "0 < n"
  shows "word_count (join [SPACE] (take n (drop k (split_ws t)))) =
         length (take n (drop k (split_ws t)))"
proof -
  let ?s = "take n (drop k (split_ws t))"
  have ne: "?s \<noteq> []" using assms by simp
  have "set ?s \<subseteq> set (split_ws t)"
    by (meson set_take_subset set_drop_subset subset_trans)
  then have free: "\<forall>w\<in>set ?s. \<forall>c\<in>set w. \<not> is_ws c"
    using split_ws_ws_free by blast
  have inner: "\<forall>x\<in>set (butlast (tl ?s)). x \<noteq> []"
    using inner_of_slice [of n k "split_ws t"] split_ws_inner_nonempty by blast
  show ?thesis
    unfolding word_count_def by (simp only: split_join [OF ne free inner])
qed

lemma chunkText_spec:
  "0 < w \<Longrightarrow> chunkText t w = Some (chunks_spec t w)"
  using chunk_loop_windows [of w "split_ws t" 0 "[]"]
  by (simp add: chunkText_def chunks_spec_def not_le)

lemma chunkText_diverges:
  "w \<le> 0 \<Longrightarrow> chunkText t w = None"
  by (simp add: chunkText_def chunk_loop_diverges split_ws_not_Nil)

lemma chunks_spec_word_count:
  assumes "0 < w" and "c \<in> set (chunks_spec t w)"
  shows "20 < word_count c \<and> int (word_count c) \<le> w"
proof -
  from assms(2) obtain s where s: "s \<in> set (windows (nat w) (split_ws t))" "20 < length s"
      and c: "c = join [SPACE] s"
    by (auto simp: chunks_spec_def)
  from windows_elem [OF s(1)] obtain k where k: "k < length (split_ws t)"
      and sk: "s = take (nat w) (drop k (split_ws t))"
    by blast
  have "word_count c = length s"
    using word_count_slice [OF k, of "nat w"] assms(1) c sk by simp
  moreover have "length s \<le> nat w" using sk by simp
  ultimately show ?thesis using s(2) assms(1) by simp
qed

lemma windows_Nil: "length xs = 0 \<Longrightarrow> windows n xs = []"
  by (simp add: windows.simps)

lemma windows_Cons:
  "0 < n \<Longrightarrow> 0 < length xs \<Longrightarrow> windows n xs = take n xs # windows n (drop n xs)"
  by (subst windows.simps) simp

lemma windows_short:
  assumes "length xs \<le> m"
  shows "filter (\<lambda>s. m < length s) (windows n xs) = []"
proof -
  have "length s \<le> m" if "s \<in> set (windows n xs)" for s
    using windows_elem [OF that] assms by auto
  then show ?thesis by (force simp: filter_empty_conv not_less)
qed

text \<open>
  Counted in pieces of the split, the bounds hold for every text: every chunk that
  \<open>chunkText\<close> returns has more than 20 and at most \<open>wordsPerChunk\<close> pieces,
  for a positive \<open>wordsPerChunk\<close> the function returns the joined windows of more
  than 20 pieces, and for \<open>wordsPerChunk \<le> 0\<close> the loop does not return.
\<close>

lemma chunkText_piece_counts:
  "(chunkText t w = Some chunks \<longrightarrow>
      (\<forall>c\<in>set chunks. 20 < word_count c \<and> int (word_count c) \<le> w)) \<and>
   (0 < w \<longrightarrow> chunkText t w = Some (chunks_spec t w)) \<and>
   (0 < w \<and> word_count t \<le> 20 \<longrightarrow> chunkText t w = Some [])"
proof (intro conjI impI)
  assume run: "chunkText t w = Some chunks"
  then have pos: "0 < w"
    using chunkText_diverges [of w t] by (cases "0 < w") auto
  with run have "chunks = chunks_spec t w" by (simp add: chunkText_spec)
  with pos show "\<forall>c\<in>set chunks. 20 < word_count c \<and> int (word_count c) \<le> w"
    using chunks_spec_word_count by blast
next
  assume "0 < w"
  then show "chunkText t w = Some (chunks_spec t w)" by (rule chunkText_spec)
next
  assume a: "0 < w \<and> word_count t \<le> 20"
  then have "chunks_spec t w = []"
    by (simp add: chunks_spec_def word_count_def not_le windows_short)
  with a show "chunkText t w = Some []" by (simp add: chunkText_spec)
qed

lemma word_count_sample_text: "0 < n \<Longrightarrow> word_count (sample_text n) = n"
proof -
  assume "0 < n"
  have free: "\<forall>w\<in>set (replicate n (js ''word'')). \<forall>c\<in>set w. \<not> is_ws c"
    by (auto simp: js_def is_ws_def)
  have inner: "\<forall>x\<in>set (butlast (tl (replicate n (js ''word'')))). x \<noteq> []"
    by (auto simp: js_def dest!: in_set_butlastD list.set_sel(2) [rotated])
  have "split_ws (join [SPACE] (replicate n (js ''word''))) = replicate n (js ''word'')"
    using \<open>0 < n\<close> by (intro split_join free inner) simp
  then show ?thesis by (simp add: word_count_def sample_text_def)
qed

text \<open>
  When the text is a normalised one, every piece of every chunk is a word in the
  plain sense.
\<close>

lemma normalized_chunk_words:
  assumes "chunkText (normalizeText raw) w = Some chunks"
    and "c \<in> set chunks" and "p \<in> set (split_ws c)"
  shows "p \<noteq> [] \<and> (\<forall>x\<in>set p. \<not> is_ws x)"
proof -
  let ?t = "normalizeText raw"
  have pos: "0 < w"
    using assms(1) chunkText_diverges [of w ?t] by (cases "0 < w") auto
  with assms(1) have "chunks = chunks_spec ?t w" by (simp add: chunkText_spec)
  with assms(2) obtain s where s: "s \<in> set (windows (nat w) (split_ws ?t))" "20 < length s"
      and c: "c = join [SPACE] s"
    by (auto simp: chunks_spec_def)
  from windows_elem [OF s(1)] obtain k where k: "k < length (split_ws ?t)"
      and sk: "s = take (nat w) (drop k (split_ws ?t))"
    by blast
  have sub: "set s \<subseteq> set (split_ws ?t)"
    unfolding sk by (meson set_take_subset set_drop_subset subset_trans)
  have "length s \<le> length (split_ws ?t)" unfolding sk by simp
  with s(2) have "1 < length (split_ws ?t)" by linarith
  then have ne: "?t \<noteq> []" by (cases ?t) auto
  have words: "\<forall>w\<in>set s. w \<noteq> [] \<and> (\<forall>x\<in>set w. \<not> is_ws x)"
    using normalized_pieces_are_words [OF ne] sub by blast
  have "s \<noteq> []" using s(2) by auto
  moreover have "set (butlast (tl s)) \<subseteq> set s"
    using \<open>s \<noteq> []\<close> by (auto dest!: in_set_butlastD dest: list.set_sel(2))
  then have "\<forall>x\<in>set (butlast (tl s)). x \<noteq> []"
    using words by blast
  ultimately have "split_ws c = s"
    unfolding c using words by (intro split_join) auto
  with assms(3) words show ?thesis by simp
qed

lemma plain_words_normalized:
  "normalizeText raw \<noteq> [] \<Longrightarrow> plain_words (normalizeText raw) = split_ws (normalizeText raw)"
  using normalized_pieces_are_words [of raw] by (simp add: plain_words_def)

lemma plain_words_Nil: "plain_words [] = []"
  by (simp add: plain_words_def)

lemma chunks_spec_Nil: "chunks_spec [] w = []"
  by (simp add: chunks_spec_def not_le windows_short)

lemma plain_chunks_spec_normalized:
  "plain_chunks_spec (normalizeText raw) w = chunks_spec (normalizeText raw) w"
proof (cases "normalizeText raw = []")
  case True
  then show ?thesis
    by (simp add: chunks_spec_Nil plain_chunks_spec_def plain_words_Nil windows.simps)
next
  case False
  then show ?thesis
    by (simp add: plain_chunks_spec_def chunks_spec_def plain_words_normalized)
qed

lemma plain_word_count_chunk:
  assumes "chunkText (normalizeText raw) w = Some chunks" and "c \<in> set chunks"
  shows "plain_word_count c = word_count c"
proof -
  have "\<forall>p\<in>set (split_ws c). p \<noteq> []"
    using normalized_chunk_words [OF assms] by blast
  then show ?thesis
    by (simp add: plain_word_count_def plain_words_def word_count_def)
qed

text \<open>
  Claim C4, as stated for every input text, fails. A text of 20 words with a blank
  in front splits into 21 pieces, the first one empty, so with the default
  \<open>wordsPerChunk\<close> the window is kept: a document of 20 words produces a chunk, and
  the chunk has 20 words, not more than 20.
\<close>

theorem chunkText_padded_counterexample:
  "plain_word_count padded_text = 20 \<and>
   chunkText padded_text default_wordsPerChunk = Some [padded_text] \<and>
   \<not> 20 < plain_word_count padded_text"
  by code_simp

text \<open>
  Claim C4, amended. For every normalised text, as \<open>normalizeText\<close> returns it and
  \<open>buildIndex\<close> passes it, and every integer \<open>wordsPerChunk\<close>, every chunk that
  \<open>chunkText\<close> returns has more than 20 words and at most \<open>wordsPerChunk\<close>
  words. For a positive \<open>wordsPerChunk\<close> the function returns, and what it returns
  are the windows of more than 20 words, joined: a trailing window of at most 20 words
  and a whole text of at most 20 words give no chunk. (For \<open>wordsPerChunk \<le> 0\<close>
  the loop does not return, see \<open>chunkText_diverges\<close>, and no chunk is produced.)
\<close>

theorem chunkText_normalised_word_counts:
  "(chunkText (normalizeText raw) w = Some chunks \<longrightarrow>
      (\<forall>c\<in>set chunks. 20 < plain_word_count c \<and> int (plain_word_count c) \<le> w)) \<and>
   (0 < w \<longrightarrow> chunkText (normalizeText raw) w = Some (plain_chunks_spec (normalizeText raw) w)) \<and>
   (0 < w \<and> plain_word_count (normalizeText raw) \<le> 20 \<longrightarrow>
      chunkText (normalizeText raw) w = Some [])"
proof (intro conjI impI)
  assume run: "chunkText (normalizeText raw) w = Some chunks"
  show "\<forall>c\<in>set chunks. 20 < plain_word_count c \<and> int (plain_word_count c) \<le> w"
  proof
    fix c
    assume c: "c \<in> set chunks"
    have "20 < word_count c \<and> int (word_count c) \<le> w"
      using chunkText_piece_counts [of "normalizeText raw" w chunks] run c by blast
    then show "20 < plain_word_count c \<and> int (plain_word_count c) \<le> w"
      by (simp add: plain_word_count_chunk [OF run c])
  qed
next
  assume "0 < w"
  then show "chunkText (normalizeText raw) w = Some (plain_chunks_spec (normalizeText raw) w)"
    by (simp add: chunkText_spec plain_chunks_spec_normalized)
next
  assume a: "0 < w \<and> plain_word_count (normalizeText raw) \<le> 20"
  then have "plain_chunks_spec (normalizeText raw) w = []"
    by (simp add: plain_chunks_spec_def plain_word_count_def not_le windows_short)
  with a show "chunkText (normalizeText raw) w = Some []"
    by (simp add: chunkText_spec plain_chunks_spec_normalized)
qed

theorem chunkText_normalised_word_counts_witness:
  "normalizeText (js ''  '' @ sample_text 25 @ js '' '') = sample_text 25 \<and>
   chunkText (normalizeText (js ''  '' @ sample_text 25 @ js '' '')) 22 = Some [sample_text 22] \<and>
   20 < plain_word_count (sample_text 22) \<and> int (plain_word_count (sample_text 22)) \<le> 22"
proof -
  have norm: "normalizeText (js ''  '' @ sample_text 25 @ js '' '') = sample_text 25"
    by code_simp
  have run: "chunkText (normalizeText (js ''  '' @ sample_text 25 @ js '' '')) 22 =
             Some [sample_text 22]"
    by code_simp
  with chunkText_normalised_word_counts
         [of "js ''  '' @ sample_text 25 @ js '' ''" 22 "[sample_text 22]"] norm
  show ?thesis by simp
qed

text \<open>
  Claim C5. With \<open>wordsPerChunk = 350\<close> a text of exactly 720 words gives exactly
  two chunks, of 350 words each, and a text of exactly 721 words gives exactly three,
  of 350, 350 and 21 words, in this order.
\<close>

theorem chunkText_scenario1:
  "(word_count t = 720 \<longrightarrow>
      (\<exists>c1 c2. chunkText t default_wordsPerChunk = Some [c1, c2] \<and>
         word_count c1 = 350 \<and> word_count c2 = 350)) \<and>
   (word_count t = 721 \<longrightarrow>
      (\<exists>c1 c2 c3. chunkText t default_wordsPerChunk = Some [c1, c2, c3] \<and>
         word_count c1 = 350 \<and> word_count c2 = 350 \<and> word_count c3 = 21))"
proof (intro conjI impI)
  let ?xs = "split_ws t"
  let ?c1 = "join [SPACE] (take 350 (drop 0 ?xs))"
  let ?c2 = "join [SPACE] (take 350 (drop 350 ?xs))"
  let ?c3 = "join [SPACE] (take 350 (drop 700 ?xs))"
  {
    assume "word_count t = 720"
    then have len: "length ?xs = 720" by (simp add: word_count_def)
    have "chunks_spec t 350 = [?c1, ?c2]"
      using len by (simp add: chunks_spec_def windows_Cons windows_Nil)
    then have run: "chunkText t default_wordsPerChunk = Some [?c1, ?c2]"
      by (simp add: chunkText_spec default_wordsPerChunk_def)
    have "word_count ?c1 = 350" "word_count ?c2 = 350"
      using len word_count_slice [of 0 t 350] word_count_slice [of 350 t 350] by simp_all
    with run show "\<exists>c1 c2. chunkText t default_wordsPerChunk = Some [c1, c2] \<and>
         word_count c1 = 350 \<and> word_count c2 = 350"
      by blast
  }
  {
    assume "word_count t = 721"
    then have len: "length ?xs = 721" by (simp add: word_count_def)
    have "chunks_spec t 350 = [?c1, ?c2, ?c3]"
      using len by (simp add: chunks_spec_def windows_Cons windows_Nil)
    then have run: "chunkText t default_wordsPerChunk = Some [?c1, ?c2, ?c3]"
      by (simp add: chunkText_spec default_wordsPerChunk_def)
    have "word_count ?c1 = 350" "word_count ?c2 = 350" "word_count ?c3 = 21"
      using len word_count_slice [of 0 t 350] word_count_slice [of 350 t 350]
        word_count_slice [of 700 t 350]
      by simp_all
    with run show "\<exists>c1 c2 c3. chunkText t default_wordsPerChunk = Some [c1, c2, c3] \<and>
         word_count c1 = 350 \<and> word_count c2 = 350 \<and> word_count c3 = 21"
      by blast
  }
qed

theorem chunkText_scenario1_witness:
  "normalizeText (sample_text 720) = sample_text 720 \<and>
   normalizeText (sample_text 721) = sample_text 721 \<and>
   word_count (sample_text 720) = 720 \<and>
   (\<exists>c1 c2. chunkText (sample_text 720) default_wordsPerChunk = Some [c1, c2] \<and>
      word_count c1 = 350 \<and> word_count c2 = 350) \<and>
   word_count (sample_text 721) = 721 \<and>
   (\<exists>c1 c2 c3. chunkText (sample_text 721) default_wordsPerChunk = Some [c1, c2, c3] \<and>
      word_count c1 = 350 \<and> word_count c2 = 350 \<and> word_count c3 = 21)"
  using chunkText_scenario1 [of "sample_text 720"] chunkText_scenario1 [of "sample_text 721"]
  by (simp add: word_count_sample_text normalizeText_sample_text)


section \<open>The index builder\<close>

lemma index_file_eq:
  "index_file env file (chunks, out) =
     Some (chunks @ file_records env file, out @ file_log env file)"
  by (simp add: index_file_def file_records_def file_log_def supported_def decode_def Let_def
        default_wordsPerChunk_def chunkText_spec length_enumerate
      split: sum.splits)

lemma index_files_eq:
  "index_files env files (chunks, out) =
     Some (chunks @ concat (map (file_records env) files),
           out @ concat (map (file_log env) files))"
  by (induction files arbitrary: chunks out) (simp_all add: index_file_eq)

text \<open>
  Claim C10. Once the directory has been listed, \<open>buildIndex\<close> runs to completion
  whichever files fail to decode. The index it installs is the concatenation, in the
  order of the listing, of the records of the supported files that decoded and
  normalised to a non-empty text, each record carrying the chunk text and the source
  "<filename>#<0-based chunk index>"; a file whose decoding fails contributes no
  record, and the failure is written to the console.
\<close>

theorem buildIndex_skips_failed_files:
  "readdirSync env (dirname env) = Inr files \<Longrightarrow>
   buildIndex env st =
     Some (Inr \<lparr>CHUNKS = concat (map (file_records env) files),
                console = console st @ concat (map (file_log env) files) @
                          [Log_total (length (concat (map (file_records env) files)))]\<rparr>) \<and>
   (\<forall>file err. decode env file = Inl err \<longrightarrow> file_records env file = [])"
  by (auto simp: buildIndex_def index_files_eq file_records_def)

theorem buildIndex_skips_failed_files_witness:
  "readdirSync sample_env (dirname sample_env) = Inr sample_files \<and>
   buildIndex sample_env \<lparr>CHUNKS = [], console = []\<rparr> =
     Some (Inr \<lparr>CHUNKS = [\<lparr>chunk_text = sample_text 25, chunk_source = js ''notes.TXT#0''\<rparr>],
                console = [Log_reading (js ''notes.TXT''), Log_added (js ''notes.TXT'') 1,
                           Log_reading (js ''broken.docx''),
                           Log_read_error (Error (js ''not a docx file'')),
                           Log_reading (js ''blank.txt''), Log_total 1]\<rparr>)"
proof -
  have h: "readdirSync sample_env (dirname sample_env) = Inr sample_files"
    by (simp add: sample_env_def)
  have r: "concat (map (file_records sample_env) sample_files) =
           [\<lparr>chunk_text = sample_text 25, chunk_source = js ''notes.TXT#0''\<rparr>]"
    by code_simp
  have l: "concat (map (file_log sample_env) sample_files) =
           [Log_reading (js ''notes.TXT''), Log_added (js ''notes.TXT'') 1,
            Log_reading (js ''broken.docx''),
            Log_read_error (Error (js ''not a docx file'')),
            Log_reading (js ''blank.txt'')]"
    by code_simp
  show ?thesis
    using buildIndex_skips_failed_files [OF h, of "\<lparr>CHUNKS = [], console = []\<rparr>"] h
    by (simp add: r l)
qed

end
